theory Spec2Isabelle
  imports Complex_Main "HOL-Library.Sublist"
begin

section \<open>The script \<open>run.ts\<close>: data and constants\<close>

text \<open>
  The script is one sequential run against a ledger client. Public keys are opaque, so
  they are a type variable \<open>'k\<close>. Everything the client library and the network do is a
  parameter of the model or a small, documented ledger semantics; the loops, constants,
  slices and checks are those of the script.
\<close>

text \<open>The SDK constant \<open>LAMPORTS_PER_SOL\<close> (lamports in one SOL).\<close>

definition LAMPORTS_PER_SOL :: nat where
  "LAMPORTS_PER_SOL = 1000000000"

text \<open>Line 39: the amount passed to \<open>requestAirdrop\<close>.\<close>

definition airdropLamports :: nat where
  "airdropLamports = 300 * LAMPORTS_PER_SOL"

text \<open>
  Lines 44-47: fifty fresh public keys. The i-th call of \<open>Keypair.generate().publicKey\<close>
  is \<open>keygen i\<close>.
\<close>

definition recipients :: "(nat \<Rightarrow> 'k) \<Rightarrow> 'k list" where
  "recipients keygen = map keygen [0..<50]"

text \<open>The parameters of one \<open>SystemProgram.transfer\<close> instruction.\<close>

record 'k transfer =
  fromPubkey :: 'k
  toPubkey :: 'k
  lamports :: nat

text \<open>
  Lines 48-57: instruction i transfers \<open>4 * LAMPORTS_PER_SOL\<close> to \<open>recipients[i]\<close>.
  The script builds the instructions from its own 50 recipients, so every index read is in
  range; the results below apply \<open>instructions\<close> to \<open>recipients keygen\<close> only.
\<close>

definition instructions :: "'k \<Rightarrow> 'k list \<Rightarrow> 'k transfer list" where
  "instructions payer rs =
     map (\<lambda>i. \<lparr>fromPubkey = payer, toPubkey = rs ! i, lamports = 4 * LAMPORTS_PER_SOL\<rparr>) [0..<50]"

text \<open>Line 97: the addresses put into the lookup table.\<close>

definition lookupAccounts :: "'k \<Rightarrow> 'k \<Rightarrow> 'k list \<Rightarrow> 'k list" where
  "lookupAccounts programId payer rs = [programId, payer] @ rs"

text \<open>Line 98.\<close>

definition batch :: int where
  "batch = 15"

section \<open>Extending the lookup table (lines 97-109)\<close>

text \<open>
  \<open>Array.prototype.slice(start, end)\<close> on integer arguments: a negative index counts
  from the end, both indices are clamped to the array, and an empty range gives the empty
  array.
\<close>

definition slice :: "int \<Rightarrow> int \<Rightarrow> 'a list \<Rightarrow> 'a list" where
  "slice start end xs =
     (let len = int (length xs);
          k = (if start < 0 then max (len + start) 0 else min start len);
          final = (if end < 0 then max (len + end) 0 else min end len);
          count = max (final - k) 0
      in take (nat count) (drop (nat k) xs))"

text \<open>
  What happens to the extension transactions, in the order in which it happens: the client
  submits one; the ledger executes it, which appends its addresses to the table and
  confirms it; the network refuses it with an error; or the client's wait for its
  confirmation ends with an error.
\<close>

datatype ('k, 'e) event =
  Submitted "'k list"
| Confirmed "'k list"
| Rejected "'k list" 'e
| Expired "'k list" 'e

text \<open>The lookup table on the ledger (its ordered addresses) and the observed events.\<close>

record ('k, 'e) ledger =
  table :: "'k list"
  trace :: "('k, 'e) event list"

text \<open>
  What becomes of one submission, as the awaiting client lives it: the transaction is
  executed and its confirmation arrives (\<open>Confirms\<close>); the network refuses it with an
  error and it is never executed (\<open>Rejects\<close>); or the wait for the confirmation ends with
  an error (\<open>Expires\<close>), in which case the ledger may have executed the transaction all
  the same (the flag) or not yet.
\<close>

datatype 'e verdict = Confirms | Rejects 'e | Expires 'e bool

text \<open>The network decides each submission from all that has happened so far.\<close>

type_synonym ('k, 'e) network = "('k, 'e) ledger \<Rightarrow> 'k list \<Rightarrow> 'e verdict"

text \<open>
  \<open>await provider.sendAndConfirm(extend)\<close> for an extension transaction carrying
  \<open>addresses\<close>, as one blocking call: it submits, and returns once the transaction is
  confirmed, or throws. It throws when the network refuses the transaction, which then
  leaves the table as it was, and also when the wait for the confirmation expires, and
  then the table has or has not been extended by the whole transaction. This is the
  \<open>await\<close> as the script lives it; the step relation further down takes it apart into
  the steps of the script and of the network, and every result of the loop computed with
  this call is the end of a run of that relation (lemma \<open>extendLoop_reachable\<close>).
\<close>

definition sendAndConfirm ::
  "('k, 'e) network \<Rightarrow> 'k list \<Rightarrow> ('k, 'e) ledger \<Rightarrow> ('k, 'e) ledger \<times> ('e + unit)" where
  "sendAndConfirm net addresses s =
     (let s1 = s\<lparr>trace := trace s @ [Submitted addresses]\<rparr>
      in case net s1 addresses of
           Confirms \<Rightarrow>
             (s1\<lparr>table := table s1 @ addresses, trace := trace s1 @ [Confirmed addresses]\<rparr>,
              Inr ())
         | Rejects e \<Rightarrow> (s1\<lparr>trace := trace s1 @ [Rejected addresses e]\<rparr>, Inl e)
         | Expires e executed \<Rightarrow>
             (if executed
              then s1\<lparr>table := table s1 @ addresses,
                      trace := trace s1 @ [Confirmed addresses, Expired addresses e]\<rparr>
              else s1\<lparr>trace := trace s1 @ [Expired addresses e]\<rparr>,
              Inl e))"

text \<open>
  Lines 99-109, the loop \<open>for (let i = 0; i < lookupAccounts.length; i += batch)\<close>,
  entered at index \<open>i\<close>. The result is the ledger the loop leaves behind together with
  the error thrown, if any; a loop that never ends has no result (\<open>None\<close>).
\<close>

partial_function (option) extendLoop ::
  "('k, 'e) network \<Rightarrow> int \<Rightarrow> 'k list \<Rightarrow> int \<Rightarrow> ('k, 'e) ledger
     \<Rightarrow> (('k, 'e) ledger \<times> 'e option) option" where
  [code]: "extendLoop net step accounts i s =
     (if i < int (length accounts) then
        (case sendAndConfirm net (slice i (i + step) accounts) s of
           (s', Inl e) \<Rightarrow> Some (s', Some e)
         | (s', Inr _) \<Rightarrow> extendLoop net step accounts (i + step) s')
      else Some (s, None))"

text \<open>The table right after its creation is confirmed (line 86): no address yet.\<close>

definition created :: "('k, 'e) ledger" where
  "created = \<lparr>table = [], trace = []\<rparr>"

text \<open>The chunks submitted, in order, as the trace shows them.\<close>

fun submissions :: "('k, 'e) event list \<Rightarrow> 'k list list" where
  "submissions [] = []"
| "submissions (Submitted c # es) = c # submissions es"
| "submissions (_ # es) = submissions es"

text \<open>A network that confirms every submission.\<close>

definition confirming :: "('k, unit) network" where
  "confirming s c = Confirms"

text \<open>
  The spec's \<open>planBatches(addresses, maxChunkSize)\<close> is embodied by the loop: the
  chunks are the \<open>addresses\<close> arguments the loop submits, from index 0, when every
  submission is confirmed.
\<close>

definition planBatches :: "'k list \<Rightarrow> int \<Rightarrow> 'k list list option" where
  "planBatches accounts maxChunkSize =
     map_option (\<lambda>r. submissions (trace (fst r)))
       (extendLoop confirming maxChunkSize accounts 0 created)"

section \<open>The loop and the network, step by step\<close>

text \<open>
  \<open>provider.sendAndConfirm(extend)\<close> returns a promise, and \<open>await\<close> suspends the
  script until that promise is settled; the network meanwhile works on the transactions
  in flight. The state of the promise being awaited:
\<close>

datatype 'e promise = Pending | Resolved | Failed 'e

text \<open>
  Where the script is: about to test \<open>i < lookupAccounts.length\<close>, suspended in the
  \<open>await\<close> of iteration \<open>i\<close>, past the loop, or out of it by the error thrown.
\<close>

datatype 'e control = Head int | Awaiting int | Finished | Threw 'e

text \<open>
  The ledger and trace as before, together with the script's control point, the awaited
  promise, the transactions submitted and not yet dealt with by the network (each with the
  iteration that submitted it), and the iterations whose transaction the ledger has
  executed.
\<close>

record ('k, 'e) world = "('k, 'e) ledger" +
  control :: "'e control"
  promise :: "'e promise"
  inFlight :: "(int \<times> 'k list) list"
  landed :: "int list"

text \<open>The loop is entered with \<open>i = 0\<close> on the freshly created table.\<close>

definition initial :: "('k, 'e) world" where
  "initial = \<lparr>table = [], trace = [], control = Head 0, promise = Pending,
              inFlight = [], landed = []\<rparr>"

text \<open>
  One step of the script or of the network, for the address list \<open>accounts\<close> and the
  increment \<open>n\<close>. The script: \<open>call\<close> evaluates \<open>provider.sendAndConfirm(...)\<close>, which
  puts the transaction in flight, and suspends in the \<open>await\<close>; \<open>resume\<close> and
  \<open>throw\<close> leave the \<open>await\<close> once the promise is settled, with \<open>i += batch\<close> or with the
  error; \<open>exit\<close> leaves the loop. The network and the client library: \<open>execute\<close>
  applies a transaction in flight to the table, \<open>refuse\<close> discards one with an error,
  \<open>notify\<close> resolves the awaited promise once its transaction has been executed, and
  \<open>expire\<close> fails the awaited promise at any time while it is pending, whatever has
  become of its transaction.
\<close>

inductive transition :: "'k list \<Rightarrow> int \<Rightarrow> ('k, 'e) world \<Rightarrow> ('k, 'e) world \<Rightarrow> bool"
  for accounts :: "'k list" and n :: int where
  call: "control w = Head i \<Longrightarrow> i < int (length accounts) \<Longrightarrow>
     transition accounts n w
       (w\<lparr>trace := trace w @ [Submitted (slice i (i + n) accounts)],
          control := Awaiting i, promise := Pending,
          inFlight := inFlight w @ [(i, slice i (i + n) accounts)]\<rparr>)"
| exit: "control w = Head i \<Longrightarrow> \<not> i < int (length accounts) \<Longrightarrow>
     transition accounts n w (w\<lparr>control := Finished\<rparr>)"
| resume: "control w = Awaiting i \<Longrightarrow> promise w = Resolved \<Longrightarrow>
     transition accounts n w (w\<lparr>control := Head (i + n)\<rparr>)"
| throw: "control w = Awaiting i \<Longrightarrow> promise w = Failed e \<Longrightarrow>
     transition accounts n w (w\<lparr>control := Threw e\<rparr>)"
| execute: "(j, c) \<in> set (inFlight w) \<Longrightarrow>
     transition accounts n w
       (w\<lparr>table := table w @ c, trace := trace w @ [Confirmed c],
          inFlight := remove1 (j, c) (inFlight w), landed := j # landed w\<rparr>)"
| refuse: "(j, c) \<in> set (inFlight w) \<Longrightarrow>
     transition accounts n w
       (w\<lparr>trace := trace w @ [Rejected c e],
          inFlight := remove1 (j, c) (inFlight w),
          promise := (if control w = Awaiting j \<and> promise w = Pending then Failed e
                      else promise w)\<rparr>)"
| notify: "control w = Awaiting j \<Longrightarrow> promise w = Pending \<Longrightarrow> j \<in> set (landed w) \<Longrightarrow>
     transition accounts n w (w\<lparr>promise := Resolved\<rparr>)"
| expire: "control w = Awaiting j \<Longrightarrow> promise w = Pending \<Longrightarrow>
     transition accounts n w
       (w\<lparr>trace := trace w @ [Expired (slice j (j + n) accounts) e], promise := Failed e\<rparr>)"

text \<open>The states a run can be in.\<close>

definition reachable :: "'k list \<Rightarrow> int \<Rightarrow> ('k, 'e) world \<Rightarrow> bool" where
  "reachable accounts n w = (transition accounts n)\<^sup>*\<^sup>* initial w"

text \<open>
  Reading a trace from the left with the chunks submitted and not yet confirmed:
  \<open>outstanding\<close> is what remains unconfirmed at the end, and \<open>awaitedAll\<close> says that
  every submission in the trace was issued when no earlier chunk was unconfirmed.
\<close>

fun outstanding :: "'k list list \<Rightarrow> ('k, 'e) event list \<Rightarrow> 'k list list" where
  "outstanding u [] = u"
| "outstanding u (Submitted c # es) = outstanding (u @ [c]) es"
| "outstanding u (Confirmed c # es) = outstanding (remove1 c u) es"
| "outstanding u (_ # es) = outstanding u es"

fun awaitedAll :: "'k list list \<Rightarrow> ('k, 'e) event list \<Rightarrow> bool" where
  "awaitedAll u [] = True"
| "awaitedAll u (Submitted c # es) = (u = [] \<and> awaitedAll (u @ [c]) es)"
| "awaitedAll u (Confirmed c # es) = awaitedAll (remove1 c u) es"
| "awaitedAll u (_ # es) = awaitedAll u es"

subsection \<open>Auxiliary functions for the proofs\<close>

text \<open>Consecutive pieces of length \<open>n\<close>, the last one possibly shorter.\<close>

function chunks :: "nat \<Rightarrow> 'a list \<Rightarrow> 'a list list" where
  "chunks n xs = (if n = 0 \<or> xs = [] then [] else take n xs # chunks n (drop n xs))"
  by pat_completeness auto
termination
  by (relation "measure (\<lambda>(n, xs). length xs)") auto

declare chunks.simps [simp del]

text \<open>Submitting a given list of chunks one after the other, stopping at the first error.\<close>

fun submitAll ::
  "('k, 'e) network \<Rightarrow> 'k list list \<Rightarrow> ('k, 'e) ledger \<Rightarrow> ('k, 'e) ledger \<times> 'e option" where
  "submitAll net [] s = (s, None)"
| "submitAll net (c # cs) s =
     (case sendAndConfirm net c s of
        (s', Inl e) \<Rightarrow> (s', Some e)
      | (s', Inr _) \<Rightarrow> submitAll net cs s')"


text \<open>
  A network on which the wait for the confirmation of the \<open>k\<close>-th submission expires with
  error \<open>e\<close> although the ledger has executed that transaction; every other submission
  is confirmed.
\<close>

definition expireAt :: "nat \<Rightarrow> 'e \<Rightarrow> ('k, 'e) network" where
  "expireAt k e s c =
     (if length (submissions (trace s)) = k then Expires e True else Confirms)"

text \<open>
  What holds in every state of a run, by parts: of the trace and the transactions in
  flight, at the loop test with index \<open>i\<close>, and while iteration \<open>i\<close> is awaited.
\<close>

definition invTrace :: "'k list \<Rightarrow> ('k, 'e) world \<Rightarrow> bool" where
  "invTrace A w \<longleftrightarrow>
     awaitedAll [] (trace w) \<and> length (inFlight w) \<le> 1
     \<and> prefix (concat (submissions (trace w))) A"

definition invHead :: "'k list \<Rightarrow> ('k, 'e) world \<Rightarrow> int \<Rightarrow> bool" where
  "invHead A w i \<longleftrightarrow>
     0 \<le> i \<and> inFlight w = [] \<and> outstanding [] (trace w) = []
     \<and> table w = take (nat i) A \<and> concat (submissions (trace w)) = take (nat i) A
     \<and> (\<forall>j \<in> set (landed w). j < i)"

definition invAwaiting :: "'k list \<Rightarrow> int \<Rightarrow> ('k, 'e) world \<Rightarrow> int \<Rightarrow> bool" where
  "invAwaiting A n w i \<longleftrightarrow>
     0 \<le> i \<and> i < int (length A)
     \<and> concat (submissions (trace w)) = take (nat (i + n)) A
     \<and> (\<forall>j \<in> set (landed w). j \<le> i)
     \<and> (promise w = Resolved \<longrightarrow> i \<in> set (landed w))
     \<and> (if i \<in> set (landed w)
         then inFlight w = [] \<and> outstanding [] (trace w) = []
              \<and> table w = take (nat (i + n)) A
         else table w = take (nat i) A
              \<and> outstanding [] (trace w) = [slice i (i + n) A]
              \<and> (inFlight w = [(i, slice i (i + n) A)]
                  \<or> inFlight w = [] \<and> promise w \<noteq> Pending))"

definition loopInvariant :: "'k list \<Rightarrow> int \<Rightarrow> ('k, 'e) world \<Rightarrow> bool" where
  "loopInvariant A n w \<longleftrightarrow>
     invTrace A w
     \<and> (case control w of
           Head i \<Rightarrow> invHead A w i
         | Awaiting i \<Rightarrow> invAwaiting A n w i
         | Finished \<Rightarrow> inFlight w = [] \<and> table w = A
                        \<and> concat (submissions (trace w)) = A
         | Threw e \<Rightarrow> True)"

section \<open>Waiting for activation (lines 116-125)\<close>

text \<open>
  What the script can throw: an \<open>Error\<close> with a message, a failed \<open>assert\<close>, or an
  error of the client library passed on as it is.
\<close>

datatype 'e thrown = Error string | AssertionError | ClientError 'e

text \<open>The spec's name for the error of line 124.\<close>

definition TableUnavailable :: "'e thrown" where
  "TableUnavailable = Error ''Lookup table is uninitialized''"

text \<open>
  The delay \<open>setTimeout\<close> really uses: one above 2147483647 ms or below 1 ms is set to
  1 ms.
\<close>

definition timerDelay :: "nat \<Rightarrow> nat" where
  "timerDelay ms = (if 2147483647 < ms \<or> ms < 1 then 1 else ms)"

text \<open>
  \<open>sleep(ms)\<close> resolves through \<open>setTimeout(resolve, ms)\<close>: the timer fires once its
  delay has passed, and \<open>late\<close> is how much later than that the runtime resumes the
  script. Time is a clock reading in milliseconds.
\<close>

definition sleep :: "nat \<Rightarrow> nat \<Rightarrow> nat \<Rightarrow> nat" where
  "sleep late ms now = now + timerDelay ms + late"

text \<open>
  Lines 119-125 with the delay as a parameter (the script passes 2000). The fetch
  \<open>getAddressLookupTable\<close> is the client's: asked for table \<open>lut\<close> at time \<open>t\<close>
  it throws, or returns \<open>null\<close> (\<open>None\<close>) or the table. The result is the time at which the
  fetch was issued and the outcome.
\<close>

definition awaitActivation ::
  "('k \<Rightarrow> nat \<Rightarrow> 'e + 't option) \<Rightarrow> nat \<Rightarrow> 'k \<Rightarrow> nat \<Rightarrow> nat \<Rightarrow> nat \<times> ('e thrown + 't)" where
  "awaitActivation getAddressLookupTable late lut delay now =
     (let t = sleep late delay now
      in (t, case getAddressLookupTable lut t of
               Inl e \<Rightarrow> Inl (ClientError e)
             | Inr None \<Rightarrow> Inl (Error ''Lookup table is uninitialized'')
             | Inr (Some lookupTable) \<Rightarrow> Inr lookupTable))"

text \<open>A fetch that finds no table, whenever it is asked.\<close>

definition absent :: "'k \<Rightarrow> nat \<Rightarrow> 'e + 't option" where
  "absent lut t = Inr None"

section \<open>Executing the transfers and checking the balances (lines 138-150)\<close>

text \<open>
  The ledger's side of a transfer, which the script relies on: the system program moves
  \<open>lamports\<close> from one account to the other, and fails when the source holds less.
\<close>

definition executeTransfer :: "'k transfer \<Rightarrow> ('k \<Rightarrow> nat) \<Rightarrow> ('k \<Rightarrow> nat) option" where
  "executeTransfer t b =
     (if b (fromPubkey t) < lamports t then None
      else let b1 = b(fromPubkey t := b (fromPubkey t) - lamports t)
           in Some (b1(toPubkey t := b1 (toPubkey t) + lamports t)))"

fun executeAll :: "'k transfer list \<Rightarrow> ('k \<Rightarrow> nat) \<Rightarrow> ('k \<Rightarrow> nat) option" where
  "executeAll [] b = Some b"
| "executeAll (t # ts) b =
     (case executeTransfer t b of None \<Rightarrow> None | Some b' \<Rightarrow> executeAll ts b')"

text \<open>
  A transaction that is confirmed has charged its fee to the payer and executed all its
  instructions in order; one that fails changes nothing (\<open>None\<close>).
\<close>

definition executeTransaction ::
  "nat \<Rightarrow> 'k \<Rightarrow> 'k transfer list \<Rightarrow> ('k \<Rightarrow> nat) \<Rightarrow> ('k \<Rightarrow> nat) option" where
  "executeTransaction fee payer ts b =
     (if b payer < fee then None else executeAll ts (b(payer := b payer - fee)))"

text \<open>
  Lines 144-150: the balance of every recipient is read and asserted to be at least
  \<open>4 * LAMPORTS_PER_SOL\<close>; the first failed assertion is thrown.
\<close>

fun checkBalances :: "('k \<Rightarrow> nat) \<Rightarrow> 'k list \<Rightarrow> 'e thrown + unit" where
  "checkBalances b [] = Inr ()"
| "checkBalances b (recipient # rs) =
     (if 4 * LAMPORTS_PER_SOL \<le> b recipient then checkBalances b rs else Inl AssertionError)"

section \<open>The loop as a sequence of submissions\<close>

lemma slice_take_drop:
  assumes "0 \<le> i" and "0 \<le> n"
  shows "slice i (i + n) xs = take (nat n) (drop (nat i) xs)"
proof (cases "i \<le> int (length xs)")
  case True
  with assms show ?thesis
    by (auto simp: slice_def Let_def min_def max_def nat_diff_distrib nat_add_distrib)
next
  case False
  with assms show ?thesis by (simp add: slice_def Let_def min_def max_def)
qed

lemma chunks_Nil [simp]: "chunks n [] = []"
  by (simp add: chunks.simps)

lemma chunks_nonempty:
  "0 < n \<Longrightarrow> xs \<noteq> [] \<Longrightarrow> chunks n xs = take n xs # chunks n (drop n xs)"
  by (subst chunks.simps) simp

lemma extendLoop_submitAll:
  assumes "1 \<le> step" and "0 \<le> i"
  shows "extendLoop net step accounts i s =
           Some (submitAll net (chunks (nat step) (drop (nat i) accounts)) s)"
  using assms(2)
proof (induction "length accounts - nat i" arbitrary: i s rule: less_induct)
  case less
  show ?case
  proof (cases "i < int (length accounts)")
    case False
    with less.prems have "drop (nat i) accounts = []" by simp
    with False show ?thesis by (subst extendLoop.simps) simp
  next
    case True
    with less.prems have ne: "drop (nat i) accounts \<noteq> []" by simp
    from assms(1) have pos: "0 < nat step" by simp
    have sl: "slice i (i + step) accounts = take (nat step) (drop (nat i) accounts)"
      using less.prems assms(1) by (simp add: slice_take_drop)
    have dr: "nat (i + step) = nat step + nat i"
      using less.prems assms(1) by (simp add: nat_add_distrib)
    have dec: "length accounts - nat (i + step) < length accounts - nat i"
      using True less.prems assms(1) by linarith
    have nn: "0 \<le> i + step" using less.prems assms(1) by simp
    have ih: "\<And>s'. extendLoop net step accounts (i + step) s' =
                 Some (submitAll net (chunks (nat step) (drop (nat (i + step)) accounts)) s')"
      using less.hyps [OF dec nn] .
    show ?thesis
      using True
      by (subst extendLoop.simps)
         (simp add: chunks_nonempty [OF pos ne] sl dr ih split: prod.split sum.split)
  qed
qed

subsection \<open>Properties of the pieces\<close>

lemma concat_chunks: "0 < n \<Longrightarrow> concat (chunks n xs) = xs"
proof (induction n xs rule: chunks.induct)
  case (1 n xs)
  show ?case
  proof (cases "xs = []")
    case True
    then show ?thesis by simp
  next
    case False
    with 1 show ?thesis by (simp add: chunks_nonempty)
  qed
qed

lemma chunks_bound: "0 < n \<Longrightarrow> c \<in> set (chunks n xs) \<Longrightarrow> length c \<le> n \<and> c \<noteq> []"
proof (induction n xs rule: chunks.induct)
  case (1 n xs)
  show ?case
  proof (cases "xs = []")
    case True
    with 1 show ?thesis by simp
  next
    case False
    with 1 show ?thesis by (auto simp: chunks_nonempty)
  qed
qed

lemma length_chunks: "0 < n \<Longrightarrow> length (chunks n xs) = (length xs + n - 1) div n"
proof (induction n xs rule: chunks.induct)
  case (1 n xs)
  show ?case
  proof (cases "xs = []")
    case True
    with 1(2) show ?thesis by simp
  next
    case False
    then have pos: "0 < length xs" by simp
    then have e: "length xs + n - 1 = (length xs - 1) + n" by linarith
    have d: "(length xs + n - 1) div n = Suc ((length xs - 1) div n)"
      using 1(2) by (simp only: e div_add_self2)
    have c: "length (chunks n xs) = Suc (length (chunks n (drop n xs)))"
      using 1(2) False by (simp add: chunks_nonempty)
    have ih: "length (chunks n (drop n xs)) = (length (drop n xs) + n - 1) div n"
      using 1(1) 1(2) False by blast
    show ?thesis
    proof (cases "length xs \<le> n")
      case True
      with pos have "length xs - 1 < n" by linarith
      then have "(length xs - 1) div n = 0" by (rule div_less)
      moreover from True have "chunks n (drop n xs) = []" by simp
      ultimately show ?thesis by (simp only: c d list.size)
    next
      case gt: False
      then have "length (drop n xs) + n - 1 = length xs - 1" by simp
      with ih have "length (chunks n (drop n xs)) = (length xs - 1) div n" by (simp only:)
      then show ?thesis by (simp only: c d)
    qed
  qed
qed

lemma ceiling_div_nat:
  assumes "0 < n"
  shows "int ((k + n - 1) div n) = \<lceil>real k / real n\<rceil>"
proof -
  define q where "q = (k + n - 1) div n"
  have "q * n \<le> k + n - 1" unfolding q_def by simp
  with assms have "q * n + 1 \<le> k + n" by linarith
  then have "real (q * n + 1) \<le> real (k + n)" by (rule of_nat_mono)
  then have a: "real q * real n + 1 \<le> real k + real n" by simp
  have "k + n - 1 < (q + 1) * n" unfolding q_def using assms
    by (metis Suc_eq_plus1 dividend_less_div_times mult.commute mult_Suc)
  with assms have "k \<le> q * n" by simp
  then have "real k \<le> real (q * n)" by (rule of_nat_mono)
  then have b: "real k \<le> real q * real n" by simp
  have rn: "0 < real n" using assms by simp
  have "\<lceil>real k / real n\<rceil> = int q"
  proof (rule ceiling_unique)
    have "(real q - 1) * real n < real k"
      using a by (simp add: algebra_simps)
    then have "real q - 1 < real k / real n"
      using rn by (subst pos_less_divide_eq) assumption+
    then show "of_int (int q) - 1 < real k / real n" by simp
    show "real k / real n \<le> of_int (int q)"
      using b rn by (simp add: pos_divide_le_eq)
  qed
  then show ?thesis by (simp add: q_def)
qed

lemma sendAndConfirm_confirming:
  "sendAndConfirm confirming c s =
     (s\<lparr>table := table s @ c, trace := trace s @ [Submitted c, Confirmed c]\<rparr>, Inr ())"
  by (simp add: sendAndConfirm_def confirming_def)

lemma submitAll_confirming:
  "submitAll confirming cs s =
     (s\<lparr>table := table s @ concat cs,
        trace := trace s @ concat (map (\<lambda>c. [Submitted c, Confirmed c]) cs)\<rparr>, None)"
  by (induction cs arbitrary: s) (simp_all add: sendAndConfirm_confirming)

lemma submissions_pairs:
  "submissions (concat (map (\<lambda>c. [Submitted c, Confirmed c]) cs)) = cs"
  by (induction cs) simp_all


subsection \<open>Runs against an arbitrary network\<close>

lemma sendAndConfirm_cases:
  obtains (confirmed) "sendAndConfirm net c s =
            (s\<lparr>table := table s @ c, trace := trace s @ [Submitted c, Confirmed c]\<rparr>, Inr ())"
  | (rejected) e where "sendAndConfirm net c s =
            (s\<lparr>trace := trace s @ [Submitted c, Rejected c e]\<rparr>, Inl e)"
  | (expired) e where "sendAndConfirm net c s =
            (s\<lparr>trace := trace s @ [Submitted c, Expired c e]\<rparr>, Inl e)"
  | (lost) e where "sendAndConfirm net c s =
            (s\<lparr>table := table s @ c,
               trace := trace s @ [Submitted c, Confirmed c, Expired c e]\<rparr>, Inl e)"
proof (cases "net (s\<lparr>trace := trace s @ [Submitted c]\<rparr>) c")
  case Confirms
  then show ?thesis by (intro confirmed) (simp add: sendAndConfirm_def)
next
  case (Rejects e)
  then show ?thesis by (intro rejected [of e]) (simp add: sendAndConfirm_def)
next
  case (Expires e executed)
  show ?thesis
  proof (cases executed)
    case True
    with Expires show ?thesis by (intro lost [of e]) (simp add: sendAndConfirm_def)
  next
    case False
    with Expires show ?thesis by (intro expired [of e]) (simp add: sendAndConfirm_def)
  qed
qed


lemma extendLoop_diverges_aux:
  assumes "extendLoop net step A i s = Some y"
  shows "\<not> (net = confirming \<and> step \<le> 0 \<and> i \<le> 0 \<and> A \<noteq> [])"
proof (rule extendLoop.raw_induct
    [where P = "\<lambda>net step A i s y. \<not> (net = confirming \<and> step \<le> 0 \<and> i \<le> 0 \<and> A \<noteq> [])",
     OF _ assms])
  fix f :: "('a, unit) network \<Rightarrow> int \<Rightarrow> 'a list \<Rightarrow> int \<Rightarrow> ('a, unit) ledger
              \<Rightarrow> (('a, unit) ledger \<times> unit option) option"
  fix net step A i s y
  assume ih: "\<And>net step A i s y. f net step A i s = Some y \<Longrightarrow>
                \<not> (net = confirming \<and> step \<le> 0 \<and> i \<le> 0 \<and> A \<noteq> [])"
    and body: "(if i < int (length A) then
        (case sendAndConfirm net (slice i (i + step) A) s of
           (s', Inl e) \<Rightarrow> Some (s', Some e)
         | (s', Inr _) \<Rightarrow> f net step A (i + step) s')
      else Some (s, None)) = Some y"
  show "\<not> (net = confirming \<and> step \<le> 0 \<and> i \<le> 0 \<and> A \<noteq> [])"
  proof
    assume a: "net = confirming \<and> step \<le> 0 \<and> i \<le> 0 \<and> A \<noteq> []"
    then have "i < int (length A)" by (cases A) auto
    with body a have "f confirming step A (i + step)
        (s\<lparr>table := table s @ slice i (i + step) A,
           trace := trace s @ [Submitted (slice i (i + step) A), Confirmed (slice i (i + step) A)]\<rparr>) = Some y"
      by (simp add: sendAndConfirm_confirming)
    from ih [OF this] a show False by simp
  qed
qed

lemma planBatches_diverges: "m \<le> 0 \<Longrightarrow> A \<noteq> [] \<Longrightarrow> planBatches A m = None"
  using extendLoop_diverges_aux [of confirming m A 0 created]
  by (cases "extendLoop confirming m A 0 created") (auto simp: planBatches_def)

lemma planBatches_empty: "planBatches [] m = Some []"
  by (simp add: planBatches_def extendLoop.simps created_def)

section \<open>The batches\<close>

lemma planBatches_chunks:
  assumes "1 \<le> m"
  shows "planBatches A m = Some (chunks (nat m) A)"
  using extendLoop_submitAll [OF assms, of 0 confirming A created]
  by (simp add: planBatches_def submitAll_confirming created_def submissions_pairs)

text \<open>
  Claim C1. For every address sequence \<open>A\<close>, the empty one included, and every
  \<open>maxChunkSize \<ge> 1\<close>, the batching loop returns chunks that concatenate to exactly
  \<open>A\<close> in the original order, each of length at most \<open>maxChunkSize\<close>, and their number is
  \<open>ceil(len(A) / maxChunkSize)\<close>; there is no chunk for the empty sequence.
\<close>

theorem planBatches_partition:
  assumes "1 \<le> maxChunkSize"
  shows "\<exists>cs. planBatches A maxChunkSize = Some cs \<and> concat cs = A
           \<and> (\<forall>c \<in> set cs. int (length c) \<le> maxChunkSize)
           \<and> int (length cs) = \<lceil>real (length A) / real_of_int maxChunkSize\<rceil>
           \<and> (A = [] \<longrightarrow> cs = [])"
proof -
  from assms have pos: "0 < nat maxChunkSize" by simp
  let ?cs = "chunks (nat maxChunkSize) A"
  have "planBatches A maxChunkSize = Some ?cs" by (rule planBatches_chunks [OF assms])
  moreover have "concat ?cs = A" by (rule concat_chunks [OF pos])
  moreover have "\<forall>c \<in> set ?cs. int (length c) \<le> maxChunkSize"
  proof
    fix c assume "c \<in> set ?cs"
    then have "length c \<le> nat maxChunkSize" using chunks_bound [OF pos] by blast
    with assms show "int (length c) \<le> maxChunkSize" by linarith
  qed
  moreover have "int (length ?cs) = \<lceil>real (length A) / real_of_int maxChunkSize\<rceil>"
    using ceiling_div_nat [OF pos, of "length A"] assms
    by (simp add: length_chunks [OF pos])
  moreover have "A = [] \<longrightarrow> ?cs = []" by simp
  ultimately show ?thesis by blast
qed

theorem planBatches_partition_witness:
  "(1::int) \<le> 3 \<and> (\<exists>cs. planBatches [1, 2, 3, 4, 5, 6, 7 :: nat] 3 = Some cs
       \<and> concat cs = [1, 2, 3, 4, 5, 6, 7] \<and> length cs = 3)"
  using planBatches_partition [of 3 "[1, 2, 3, 4, 5, 6, 7 :: nat]"] by auto

section \<open>The script's own list of 52 addresses\<close>

lemma chunks_52:
  assumes "length A = 52"
  shows "chunks 15 A = [take 15 A, take 15 (drop 15 A), take 15 (drop 30 A), drop 45 A]"
proof -
  from assms have ne: "A \<noteq> []" "drop 15 A \<noteq> []" "drop 30 A \<noteq> []" "drop 45 A \<noteq> []"
    by auto
  have "chunks 15 A = take 15 A # chunks 15 (drop 15 A)"
    using ne(1) by (simp add: chunks_nonempty)
  also have "chunks 15 (drop 15 A) = take 15 (drop 15 A) # chunks 15 (drop 30 A)"
    using ne(2) by (simp add: chunks_nonempty)
  also have "chunks 15 (drop 30 A) = take 15 (drop 30 A) # chunks 15 (drop 45 A)"
    using ne(3) by (simp add: chunks_nonempty)
  also have "chunks 15 (drop 45 A) = [drop 45 A]"
    using ne(4) assms by (simp add: chunks_nonempty)
  finally show ?thesis .
qed

lemma length_lookupAccounts:
  "length (lookupAccounts programId payer (recipients keygen)) = 52"
  by (simp add: lookupAccounts_def recipients_def)

text \<open>
  Claim C2. The script's list of 52 addresses (the system program id, the payer, then the
  50 recipients) with \<open>batch = 15\<close> gives exactly four chunks, of sizes 15, 15, 15 and 7,
  in the original order; when every submission is confirmed the loop submits exactly these
  four extension transactions, one per chunk, each only after the previous one was
  confirmed, and the table then holds all 52 addresses.
\<close>

theorem extension_in_four_batches:
  fixes programId payer :: 'k and keygen :: "nat \<Rightarrow> 'k"
  defines "A \<equiv> lookupAccounts programId payer (recipients keygen)"
  shows "\<exists>c1 c2 c3 c4. planBatches A batch = Some [c1, c2, c3, c4]
           \<and> map length [c1, c2, c3, c4] = [15, 15, 15, 7]
           \<and> c1 @ c2 @ c3 @ c4 = A
           \<and> extendLoop confirming batch A 0 created =
               Some (\<lparr>table = A,
                       trace = [Submitted c1, Confirmed c1, Submitted c2, Confirmed c2,
                                Submitted c3, Confirmed c3, Submitted c4, Confirmed c4]\<rparr>, None)"
proof -
  have len: "length A = 52" unfolding A_def by (rule length_lookupAccounts)
  let ?c1 = "take 15 A" and ?c2 = "take 15 (drop 15 A)"
  let ?c3 = "take 15 (drop 30 A)" and ?c4 = "drop 45 A"
  have cs: "chunks (nat batch) A = [?c1, ?c2, ?c3, ?c4]"
    using chunks_52 [OF len] by (simp add: batch_def)
  have 1: "planBatches A batch = Some [?c1, ?c2, ?c3, ?c4]"
    using planBatches_chunks [of batch A] cs by (simp add: batch_def)
  have 2: "map length [?c1, ?c2, ?c3, ?c4] = [15, 15, 15, 7]"
    using len by simp
  have "concat (chunks (nat batch) A) = A" by (rule concat_chunks) (simp add: batch_def)
  then have 3: "?c1 @ ?c2 @ ?c3 @ ?c4 = A" by (simp only: cs concat.simps append_Nil2)
  have 4: "extendLoop confirming batch A 0 created =
               Some (\<lparr>table = A,
                       trace = [Submitted ?c1, Confirmed ?c1, Submitted ?c2, Confirmed ?c2,
                                Submitted ?c3, Confirmed ?c3, Submitted ?c4, Confirmed ?c4]\<rparr>, None)"
  proof -
    have "extendLoop confirming batch A 0 created =
            Some (submitAll confirming (chunks (nat batch) A) created)"
      using extendLoop_submitAll [of batch 0 confirming A created] by (simp add: batch_def)
    then show ?thesis unfolding submitAll_confirming using 3 by (simp add: cs created_def)
  qed
  show ?thesis by (intro exI conjI) (rule 1, rule 2, rule 3, rule 4)
qed

section \<open>A rejected submission\<close>



lemma run_expired_third:
  "extendLoop (expireAt 3 ''timeout'') batch [0..<52] 0 created =
     Some (\<lparr>table = [0..<45],
             trace = [Submitted [0..<15], Confirmed [0..<15],
                      Submitted [15..<30], Confirmed [15..<30],
                      Submitted [30..<45], Confirmed [30..<45],
                      Expired [30..<45] ''timeout'']\<rparr>,
           Some ''timeout'')"
  by code_simp





section \<open>Order of the submissions\<close>

lemma outstanding_append:
  "outstanding u (es @ fs) = outstanding (outstanding u es) fs"
  by (induction u es rule: outstanding.induct) simp_all

lemma awaitedAll_append:
  "awaitedAll u (es @ fs) = (awaitedAll u es \<and> awaitedAll (outstanding u es) fs)"
  by (induction u es rule: awaitedAll.induct) simp_all

lemma submissions_snoc:
  "submissions (es @ [ev]) = submissions es @ submissions [ev]"
  by (induction es rule: submissions.induct) simp_all

lemma take_slice:
  assumes "0 \<le> i" and "0 \<le> n"
  shows "take (nat i) xs @ slice i (i + n) xs = take (nat (i + n)) xs"
  using assms by (simp add: slice_take_drop nat_add_distrib take_add)

lemma inv_initial: "loopInvariant A n initial"
  by (simp add: loopInvariant_def invTrace_def invHead_def initial_def)

lemma inv_call:
  assumes "1 \<le> n" and "loopInvariant A n w" and c: "control w = Head i" and lt: "i < int (length A)"
  shows "loopInvariant A n
       (w\<lparr>trace := trace w @ [Submitted (slice i (i + n) A)],
          control := Awaiting i, promise := Pending,
          inFlight := inFlight w @ [(i, slice i (i + n) A)]\<rparr>)"
proof -
  from assms(2) c have t: "invTrace A w" and h: "invHead A w i" by (simp_all add: loopInvariant_def)
  from h assms(1) have sl: "take (nat i) A @ slice i (i + n) A = take (nat (i + n)) A"
    by (simp add: invHead_def take_slice)
  from h have nl: "i \<notin> set (landed w)" by (auto simp: invHead_def)
  from h have le: "\<forall>j \<in> set (landed w). j \<le> i" by (auto simp: invHead_def)
  show ?thesis
    using t h lt sl nl le
    by (simp add: loopInvariant_def invTrace_def invAwaiting_def invHead_def awaitedAll_append
        outstanding_append submissions_snoc take_is_prefix)
qed

lemma inv_exit:
  assumes "loopInvariant A n w" and c: "control w = Head i" and ge: "\<not> i < int (length A)"
  shows "loopInvariant A n (w\<lparr>control := Finished\<rparr>)"
  using assms by (simp add: loopInvariant_def invTrace_def invHead_def)

lemma inv_resume:
  assumes "1 \<le> n" and "loopInvariant A n w" and c: "control w = Awaiting i" and p: "promise w = Resolved"
  shows "loopInvariant A n (w\<lparr>control := Head (i + n)\<rparr>)"
proof -
  from assms(2) c have t: "invTrace A w" and h: "invAwaiting A n w i" by (simp_all add: loopInvariant_def)
  from h p have l: "i \<in> set (landed w)" by (simp add: invAwaiting_def)
  from h assms(1) have "\<forall>j \<in> set (landed w). j < i + n" by (fastforce simp: invAwaiting_def)
  with t h l assms(1) show ?thesis
    by (simp add: loopInvariant_def invTrace_def invAwaiting_def invHead_def)
qed

lemma inv_throw:
  assumes "loopInvariant A n w" and c: "control w = Awaiting i"
  shows "loopInvariant A n (w\<lparr>control := Threw e\<rparr>)"
  using assms by (simp add: loopInvariant_def invTrace_def)

lemma invTrace_settled:
  assumes "invTrace A w" and "submissions [ev] = []"
  shows "invTrace A (w\<lparr>trace := trace w @ [ev], inFlight := remove1 x (inFlight w)\<rparr>)"
proof -
  from assms(2) have "awaitedAll u [ev]" for u by (cases ev) simp_all
  with assms show ?thesis
    by (simp add: invTrace_def awaitedAll_append submissions_snoc length_remove1)
qed

lemma inv_execute:
  assumes "1 \<le> n" and "loopInvariant A n w" and m: "(j, c) \<in> set (inFlight w)"
  shows "loopInvariant A n
       (w\<lparr>table := table w @ c, trace := trace w @ [Confirmed c],
          inFlight := remove1 (j, c) (inFlight w), landed := j # landed w\<rparr>)"
proof -
  from assms(2) have t: "invTrace A w" by (simp add: loopInvariant_def)
  have t': "invTrace A (w\<lparr>table := table w @ c, trace := trace w @ [Confirmed c],
          inFlight := remove1 (j, c) (inFlight w), landed := j # landed w\<rparr>)"
    using invTrace_settled [OF t, of "Confirmed c" "(j, c)"] by (simp add: invTrace_def)
  show ?thesis
  proof (cases "control w")
    case (Head i)
    with assms(2) m show ?thesis by (simp add: loopInvariant_def invHead_def)
  next
    case (Awaiting i)
    with assms(2) have h: "invAwaiting A n w i" by (simp add: loopInvariant_def)
    from h m have nl: "i \<notin> set (landed w)" by (auto simp: invAwaiting_def)
    with h m have fl: "inFlight w = [(i, slice i (i + n) A)]" by (auto simp: invAwaiting_def)
    with m have j: "j = i" and c: "c = slice i (i + n) A" by simp_all
    from h assms(1) have sl: "take (nat i) A @ slice i (i + n) A = take (nat (i + n)) A"
      by (simp add: invAwaiting_def take_slice)
    from h nl have tb: "table w = take (nat i) A"
      and ou: "outstanding [] (trace w) = [slice i (i + n) A]" by (simp_all add: invAwaiting_def)
    from h have rest: "0 \<le> i" "i < int (length A)"
      "concat (submissions (trace w)) = take (nat (i + n)) A"
      "\<forall>j \<in> set (landed w). j \<le> i" by (simp_all add: invAwaiting_def)
    have "invAwaiting A n (w\<lparr>table := table w @ c, trace := trace w @ [Confirmed c],
          inFlight := remove1 (j, c) (inFlight w), landed := j # landed w\<rparr>) i"
      using rest by (simp add: invAwaiting_def j c fl tb ou sl outstanding_append submissions_snoc)
    with t' Awaiting show ?thesis by (simp add: loopInvariant_def)
  next
    case Finished
    with assms(2) m show ?thesis by (simp add: loopInvariant_def)
  next
    case (Threw e)
    with t' show ?thesis by (simp add: loopInvariant_def)
  qed
qed

lemma inv_refuse:
  assumes "loopInvariant A n w" and m: "(j, c) \<in> set (inFlight w)"
  shows "loopInvariant A n
       (w\<lparr>trace := trace w @ [Rejected c e],
          inFlight := remove1 (j, c) (inFlight w),
          promise := (if control w = Awaiting j \<and> promise w = Pending then Failed e
                      else promise w)\<rparr>)"
proof -
  from assms(1) have t: "invTrace A w" by (simp add: loopInvariant_def)
  have t': "invTrace A (w\<lparr>trace := trace w @ [Rejected c e],
          inFlight := remove1 (j, c) (inFlight w),
          promise := (if control w = Awaiting j \<and> promise w = Pending then Failed e
                      else promise w)\<rparr>)"
    using invTrace_settled [OF t, of "Rejected c e" "(j, c)"] by (simp add: invTrace_def)
  show ?thesis
  proof (cases "control w")
    case (Head i)
    with assms(1) m show ?thesis by (simp add: loopInvariant_def invHead_def)
  next
    case (Awaiting i)
    with assms(1) have h: "invAwaiting A n w i" by (simp add: loopInvariant_def)
    from h m have nl: "i \<notin> set (landed w)" by (auto simp: invAwaiting_def)
    with h m have fl: "inFlight w = [(i, slice i (i + n) A)]" by (auto simp: invAwaiting_def)
    with m have j: "j = i" and c: "c = slice i (i + n) A" by simp_all
    from h nl have pr: "promise w \<noteq> Resolved" by (auto simp: invAwaiting_def)
    from h nl have tb: "table w = take (nat i) A"
      and ou: "outstanding [] (trace w) = [slice i (i + n) A]" by (simp_all add: invAwaiting_def)
    from h have rest: "0 \<le> i" "i < int (length A)"
      "concat (submissions (trace w)) = take (nat (i + n)) A"
      "\<forall>j \<in> set (landed w). j \<le> i" by (simp_all add: invAwaiting_def)
    have "invAwaiting A n (w\<lparr>trace := trace w @ [Rejected c e],
          inFlight := remove1 (j, c) (inFlight w),
          promise := (if control w = Awaiting j \<and> promise w = Pending then Failed e
                      else promise w)\<rparr>) i"
      using rest pr nl
      by (simp add: invAwaiting_def j c fl tb ou Awaiting outstanding_append submissions_snoc)
    with t' Awaiting show ?thesis by (simp add: loopInvariant_def)
  next
    case Finished
    with assms(1) m show ?thesis by (simp add: loopInvariant_def)
  next
    case (Threw e')
    with t' show ?thesis by (simp add: loopInvariant_def)
  qed
qed

lemma inv_notify:
  assumes "loopInvariant A n w" and c: "control w = Awaiting j" and "j \<in> set (landed w)"
  shows "loopInvariant A n (w\<lparr>promise := Resolved\<rparr>)"
  using assms by (auto simp: loopInvariant_def invTrace_def invAwaiting_def)

lemma inv_expire:
  assumes "loopInvariant A n w" and c: "control w = Awaiting j" and p: "promise w = Pending"
  shows "loopInvariant A n
       (w\<lparr>trace := trace w @ [Expired (slice j (j + n) A) e], promise := Failed e\<rparr>)"
proof -
  from assms(1) c have t: "invTrace A w" and h: "invAwaiting A n w j" by (simp_all add: loopInvariant_def)
  have t': "invTrace A (w\<lparr>trace := trace w @ [Expired (slice j (j + n) A) e],
                          promise := Failed e\<rparr>)"
    using t by (simp add: invTrace_def awaitedAll_append submissions_snoc)
  have "invAwaiting A n (w\<lparr>trace := trace w @ [Expired (slice j (j + n) A) e],
                          promise := Failed e\<rparr>) j"
    using h p by (auto simp: invAwaiting_def outstanding_append submissions_snoc split: if_splits)
  with t' c show ?thesis by (simp add: loopInvariant_def)
qed

lemma inv_transition:
  assumes "1 \<le> n" and "transition A n w w'" and "loopInvariant A n w"
  shows "loopInvariant A n w'"
  using assms(2)
proof cases
  case (call i)
  show ?thesis unfolding call(1) by (rule inv_call [OF assms(1,3) call(2,3)])
next
  case (exit i)
  show ?thesis unfolding exit(1) by (rule inv_exit [OF assms(3) exit(2,3)])
next
  case (resume i)
  show ?thesis unfolding resume(1) by (rule inv_resume [OF assms(1,3) resume(2,3)])
next
  case (throw i e)
  show ?thesis unfolding throw(1) by (rule inv_throw [OF assms(3) throw(2)])
next
  case (execute j c)
  show ?thesis unfolding execute(1) by (rule inv_execute [OF assms(1,3) execute(2)])
next
  case (refuse j c e)
  show ?thesis unfolding refuse(1) by (rule inv_refuse [OF assms(3) refuse(2)])
next
  case (notify j)
  show ?thesis unfolding notify(1) by (rule inv_notify [OF assms(3) notify(2,4)])
next
  case (expire j e)
  show ?thesis unfolding expire(1) by (rule inv_expire [OF assms(3) expire(2,3)])
qed

lemma reachable_inv:
  assumes "1 \<le> n" and "reachable A n w"
  shows "loopInvariant A n w"
  using assms(2) unfolding reachable_def
  by (induction rule: rtranclp_induct) (auto intro: inv_initial inv_transition [OF assms(1)])

lemma awaitedAll_overlap: "\<not> awaitedAll [] [Submitted a, Submitted b]"
  by simp

lemma reachable_steps:
  "reachable A n w \<Longrightarrow> (transition A n)\<^sup>*\<^sup>* w w' \<Longrightarrow> reachable A n w'"
  unfolding reachable_def by (rule rtranclp_trans)

lemma steps_call:
  assumes "control w = Head i" and "i < int (length A)"
  shows "\<exists>wa. transition A n w wa \<and> control wa = Awaiting i \<and> promise wa = Pending
           \<and> (i, slice i (i + n) A) \<in> set (inFlight wa) \<and> landed wa = landed w
           \<and> table wa = table w \<and> trace wa = trace w @ [Submitted (slice i (i + n) A)]"
proof -
  define wa where "wa = w\<lparr>trace := trace w @ [Submitted (slice i (i + n) A)],
          control := Awaiting i, promise := Pending,
          inFlight := inFlight w @ [(i, slice i (i + n) A)]\<rparr>"
  have "transition A n w wa" unfolding wa_def by (rule transition.call [OF assms(1,2)])
  then show ?thesis by (intro exI [of _ wa]) (simp add: wa_def)
qed

lemma steps_execute:
  assumes "(j, c) \<in> set (inFlight w)"
  shows "\<exists>wb. transition A n w wb \<and> control wb = control w \<and> promise wb = promise w
           \<and> j \<in> set (landed wb)
           \<and> table wb = table w @ c \<and> trace wb = trace w @ [Confirmed c]"
proof -
  define wb where "wb = w\<lparr>table := table w @ c, trace := trace w @ [Confirmed c],
          inFlight := remove1 (j, c) (inFlight w), landed := j # landed w\<rparr>"
  have "transition A n w wb" unfolding wb_def by (rule transition.execute [OF assms])
  then show ?thesis by (intro exI [of _ wb]) (simp add: wb_def)
qed

lemma steps_refuse:
  assumes "(j, c) \<in> set (inFlight w)" and "control w = Awaiting j" and "promise w = Pending"
  shows "\<exists>wb. transition A n w wb \<and> control wb = Awaiting j \<and> promise wb = Failed e
           \<and> table wb = table w \<and> trace wb = trace w @ [Rejected c e]"
proof -
  define wb where "wb = w\<lparr>trace := trace w @ [Rejected c e],
          inFlight := remove1 (j, c) (inFlight w),
          promise := (if control w = Awaiting j \<and> promise w = Pending then Failed e
                      else promise w)\<rparr>"
  have "transition A n w wb" unfolding wb_def by (rule transition.refuse [OF assms(1)])
  then show ?thesis using assms(2,3) by (intro exI [of _ wb]) (simp add: wb_def)
qed

lemma steps_expire:
  assumes "control w = Awaiting j" and "promise w = Pending"
  shows "\<exists>wb. transition A n w wb \<and> control wb = Awaiting j \<and> promise wb = Failed e
           \<and> table wb = table w \<and> trace wb = trace w @ [Expired (slice j (j + n) A) e]"
proof -
  define wb where "wb = w\<lparr>trace := trace w @ [Expired (slice j (j + n) A) e],
                          promise := Failed e\<rparr>"
  have "transition A n w wb" unfolding wb_def by (rule transition.expire [OF assms])
  then show ?thesis using assms by (intro exI [of _ wb]) (simp add: wb_def)
qed

lemma steps_notify_resume:
  assumes "control w = Awaiting j" and "promise w = Pending" and "j \<in> set (landed w)"
  shows "\<exists>wd. (transition A n)\<^sup>*\<^sup>* w wd \<and> control wd = Head (j + n)
           \<and> table wd = table w \<and> trace wd = trace w"
proof -
  define wc where "wc = w\<lparr>promise := Resolved\<rparr>"
  define wd where "wd = wc\<lparr>control := Head (j + n)\<rparr>"
  have 1: "transition A n w wc" unfolding wc_def by (rule transition.notify [OF assms])
  have "control wc = Awaiting j" "promise wc = Resolved" using assms by (simp_all add: wc_def)
  then have 2: "transition A n wc wd" unfolding wd_def by (rule transition.resume)
  from 1 2 have "(transition A n)\<^sup>*\<^sup>* w wd" by auto
  then show ?thesis by (intro exI [of _ wd]) (simp add: wd_def wc_def)
qed

lemma steps_throw:
  assumes "control w = Awaiting j" and "promise w = Failed e"
  shows "\<exists>wd. transition A n w wd \<and> control wd = Threw e
           \<and> table wd = table w \<and> trace wd = trace w"
proof -
  define wd where "wd = w\<lparr>control := Threw e\<rparr>"
  have "transition A n w wd" unfolding wd_def by (rule transition.throw [OF assms])
  then show ?thesis by (intro exI [of _ wd]) (simp add: wd_def)
qed

lemma loop_reachable:
  assumes n: "1 \<le> n"
  shows "0 \<le> i \<Longrightarrow> reachable A n w \<Longrightarrow> control w = Head i \<Longrightarrow> table w = table s \<Longrightarrow>
         trace w = trace s \<Longrightarrow> extendLoop net n A i s = Some (s', r) \<Longrightarrow>
         \<exists>w'. reachable A n w' \<and> table w' = table s' \<and> trace w' = trace s'
               \<and> control w' = (case r of None \<Rightarrow> Finished | Some e \<Rightarrow> Threw e)"
proof (induction "length A - nat i" arbitrary: i s w rule: less_induct)
  case less
  let ?c = "slice i (i + n) A"
  show ?case
  proof (cases "i < int (length A)")
    case False
    with less.prems(6) have s': "s' = s" and r: "r = None"
      by (simp_all add: extendLoop.simps)
    have "transition A n w (w\<lparr>control := Finished\<rparr>)"
      by (rule transition.exit [OF less.prems(3) False])
    with less.prems(2) have "reachable A n (w\<lparr>control := Finished\<rparr>)"
      by (auto intro: reachable_steps)
    then show ?thesis using less.prems(4,5)
      by (intro exI [of _ "w\<lparr>control := Finished\<rparr>"]) (simp add: s' r)
  next
    case True
    from steps_call [OF less.prems(3) True, of n] obtain wa where
      wa: "transition A n w wa" "control wa = Awaiting i" "promise wa = Pending"
        "(i, ?c) \<in> set (inFlight wa)" "landed wa = landed w"
        "table wa = table w" "trace wa = trace w @ [Submitted ?c]" by blast
    from less.prems(2) wa(1) have ra: "reachable A n wa" by (auto intro: reachable_steps)
    from less.prems(6) True have loop:
      "(case sendAndConfirm net ?c s of
           (s1, Inl e) \<Rightarrow> Some (s1, Some e)
         | (s1, Inr _) \<Rightarrow> extendLoop net n A (i + n) s1) = Some (s', r)"
      by (subst (asm) extendLoop.simps) simp
    show ?thesis
    proof (cases rule: sendAndConfirm_cases [of net ?c s])
      case confirmed
      let ?s1 = "s\<lparr>table := table s @ ?c, trace := trace s @ [Submitted ?c, Confirmed ?c]\<rparr>"
      from loop confirmed have next_run: "extendLoop net n A (i + n) ?s1 = Some (s', r)" by simp
      from steps_execute [OF wa(4), of A n] obtain wb where
        wb: "transition A n wa wb" "control wb = control wa" "promise wb = promise wa"
          "i \<in> set (landed wb)" "table wb = table wa @ ?c"
          "trace wb = trace wa @ [Confirmed ?c]" by blast
      from steps_notify_resume [of wb i A n] wb wa obtain wd where
        wd: "(transition A n)\<^sup>*\<^sup>* wb wd" "control wd = Head (i + n)"
          "table wd = table wb" "trace wd = trace wb" by auto
      from ra wb(1) wd(1) have rd: "reachable A n wd" by (auto intro: reachable_steps)
      have dec: "length A - nat (i + n) < length A - nat i"
        using True less.prems(1) n by linarith
      have nn: "0 \<le> i + n" using less.prems(1) n by simp
      have tb: "table wd = table ?s1" using wd wb wa less.prems(4) by simp
      have tr: "trace wd = trace ?s1" using wd wb wa less.prems(5) by simp
      from less.hyps [OF dec nn rd wd(2) tb tr next_run] show ?thesis .
    next
      case (rejected e)
      with loop have s': "s' = s\<lparr>trace := trace s @ [Submitted ?c, Rejected ?c e]\<rparr>"
        and r: "r = Some e" by simp_all
      from steps_refuse [OF wa(4) wa(2) wa(3), of A n e] obtain wb where
        wb: "transition A n wa wb" "control wb = Awaiting i" "promise wb = Failed e"
          "table wb = table wa" "trace wb = trace wa @ [Rejected ?c e]" by blast
      from steps_throw [OF wb(2,3), of A n] obtain wd where
        wd: "transition A n wb wd" "control wd = Threw e"
          "table wd = table wb" "trace wd = trace wb" by blast
      from ra wb(1) wd(1) have "reachable A n wd" by (auto intro: reachable_steps)
      then show ?thesis using wd wb wa less.prems(4,5)
        by (intro exI [of _ wd]) (simp add: s' r)
    next
      case (expired e)
      with loop have s': "s' = s\<lparr>trace := trace s @ [Submitted ?c, Expired ?c e]\<rparr>"
        and r: "r = Some e" by simp_all
      from steps_expire [OF wa(2) wa(3), of A n e] obtain wb where
        wb: "transition A n wa wb" "control wb = Awaiting i" "promise wb = Failed e"
          "table wb = table wa" "trace wb = trace wa @ [Expired ?c e]" by blast
      from steps_throw [OF wb(2,3), of A n] obtain wd where
        wd: "transition A n wb wd" "control wd = Threw e"
          "table wd = table wb" "trace wd = trace wb" by blast
      from ra wb(1) wd(1) have "reachable A n wd" by (auto intro: reachable_steps)
      then show ?thesis using wd wb wa less.prems(4,5)
        by (intro exI [of _ wd]) (simp add: s' r)
    next
      case (lost e)
      with loop have s': "s' = s\<lparr>table := table s @ ?c,
               trace := trace s @ [Submitted ?c, Confirmed ?c, Expired ?c e]\<rparr>"
        and r: "r = Some e" by simp_all
      from steps_execute [OF wa(4), of A n] obtain wb where
        wb: "transition A n wa wb" "control wb = control wa" "promise wb = promise wa"
          "i \<in> set (landed wb)" "table wb = table wa @ ?c"
          "trace wb = trace wa @ [Confirmed ?c]" by blast
      from steps_expire [of wb i A n e] wb wa obtain wc where
        wc: "transition A n wb wc" "control wc = Awaiting i" "promise wc = Failed e"
          "table wc = table wb" "trace wc = trace wb @ [Expired ?c e]" by auto
      from steps_throw [OF wc(2,3), of A n] obtain wd where
        wd: "transition A n wc wd" "control wd = Threw e"
          "table wd = table wc" "trace wd = trace wc" by blast
      from ra wb(1) wc(1) wd(1) have "reachable A n wd" by (auto intro: reachable_steps)
      then show ?thesis using wd wc wb wa less.prems(4,5)
        by (intro exI [of _ wd]) (simp add: s' r)
    qed
  qed
qed

lemma extendLoop_reachable:
  assumes "1 \<le> n" and "extendLoop net n A 0 created = Some (s', r)"
  shows "\<exists>w. reachable A n w \<and> table w = table s' \<and> trace w = trace s'
             \<and> control w = (case r of None \<Rightarrow> Finished | Some e \<Rightarrow> Threw e)"
proof -
  have "reachable A n (initial :: ('a, 'b) world)" by (simp add: reachable_def)
  from loop_reachable [OF assms(1) _ this _ _ _ assms(2)] show ?thesis
    by (simp add: initial_def created_def)
qed

text \<open>
  Claim C3. In every state of every run of the loop against the network, whatever the
  network does and whenever it does it, at most one extension transaction is in flight,
  and every submission in the trace was issued only when each earlier chunk had been
  confirmed: the script never submits chunk k+1 before the submission of chunk k is
  confirmed. The chunks are submitted in the order of the address list, and a loop that
  has finished has put the whole list into the table with nothing left in flight.
\<close>

theorem extension_one_at_a_time:
  assumes "1 \<le> n" and "reachable A n w"
  shows "length (inFlight w) \<le> 1 \<and> awaitedAll [] (trace w)
         \<and> prefix (concat (submissions (trace w))) A
         \<and> (control w = Finished \<longrightarrow>
               inFlight w = [] \<and> table w = A \<and> concat (submissions (trace w)) = A)"
  using reachable_inv [OF assms] by (auto simp: loopInvariant_def invTrace_def)

theorem extension_one_at_a_time_witness:
  "1 \<le> batch \<and>
   (\<exists>w. reachable [0..<52] batch w
      \<and> trace w = [Submitted [0..<15], Confirmed [0..<15],
                      Submitted [15..<30], Confirmed [15..<30],
                      Submitted [30..<45], Confirmed [30..<45],
                      Expired [30..<45] ''timeout'']
      \<and> control w = Threw ''timeout''
      \<and> length (inFlight w) \<le> 1 \<and> awaitedAll [] (trace w)
      \<and> prefix (concat (submissions (trace w))) [0..<52])"
proof -
  have b: "1 \<le> batch" by (simp add: batch_def)
  from extendLoop_reachable [OF b run_expired_third] obtain w where
    w: "reachable [0..<52] batch w"
      "trace w = [Submitted [0..<15], Confirmed [0..<15],
                      Submitted [15..<30], Confirmed [15..<30],
                      Submitted [30..<45], Confirmed [30..<45],
                      Expired [30..<45] ''timeout'']"
      "control w = Threw ''timeout''" by auto
  from extension_one_at_a_time [OF b w(1)] have
    "length (inFlight w) \<le> 1 \<and> awaitedAll [] (trace w)
      \<and> prefix (concat (submissions (trace w))) [0..<52]" by blast
  with b w show ?thesis by blast
qed

section \<open>A chunk size that is not positive\<close>

text \<open>
  Claim C4, as amended. The loop checks no argument and the script runs it with
  \<open>batch = 15\<close> only. With a chunk size of zero or less it returns the empty sequence of
  chunks for the empty address sequence, and does not return for a non-empty one whose
  submissions are all confirmed.
\<close>

theorem planBatches_nonpositive:
  fixes A :: "'k list"
  assumes "maxChunkSize \<le> 0"
  shows "batch = 15 \<and> planBatches ([] :: 'k list) maxChunkSize = Some []
         \<and> (A \<noteq> [] \<longrightarrow> planBatches A maxChunkSize = None)"
  using assms by (simp add: planBatches_empty planBatches_diverges batch_def)

theorem planBatches_nonpositive_witness:
  "(0::int) \<le> 0 \<and> planBatches ([]::nat list) 0 = Some [] \<and> planBatches [1::nat] 0 = None"
  using planBatches_nonpositive [of 0 "[1::nat]"] by simp

text \<open>
  Claim C4 as stated fails: for the empty address sequence and the chunk sizes 0 and -1 the
  loop returns a result, the empty sequence of chunks, and no error.
\<close>

theorem planBatches_nonpositive_counterexample:
  "planBatches ([]::nat list) 0 = Some [] \<and> planBatches ([]::nat list) (- 1) = Some []"
  by (simp add: planBatches_empty)

section \<open>Activation\<close>

lemma timerDelay_bounded: "ms \<le> 2147483647 \<Longrightarrow> ms \<le> timerDelay ms"
  by (simp add: timerDelay_def)

text \<open>
  Claim C6, as amended. For a delay of at most 2147483647 ms (the script passes 2000)
  \<open>awaitActivation\<close> issues its fetch no earlier than \<open>delay\<close> after it was called. For
  every delay it fails with \<open>TableUnavailable\<close> exactly when that fetch returns no table,
  and when the fetch returns a table it returns that table unchanged.
\<close>

theorem awaitActivation_fetch:
  fixes getAddressLookupTable :: "'k \<Rightarrow> nat \<Rightarrow> 'e + 't option"
  shows "\<exists>t res. awaitActivation getAddressLookupTable late lut delay now = (t, res)
           \<and> (delay \<le> 2147483647 \<longrightarrow> now + delay \<le> t)
           \<and> (res = Inl TableUnavailable \<longleftrightarrow> getAddressLookupTable lut t = Inr None)
           \<and> (\<forall>lookupTable. getAddressLookupTable lut t = Inr (Some lookupTable)
                 \<longrightarrow> res = Inr lookupTable)"
  using timerDelay_bounded [of delay]
  by (auto simp: awaitActivation_def sleep_def TableUnavailable_def Let_def
           split: sum.splits option.splits)

theorem awaitActivation_fetch_witness:
  "(2000::nat) \<le> 2147483647
   \<and> awaitActivation (\<lambda>lut t. if t < 2100 then Inl ''too early''
                             else if lut = (7::nat) then Inr (Some [1, 2, 3 :: nat]) else Inr None)
     5 7 2000 100 = (2105, Inr [1, 2, 3])
   \<and> awaitActivation (\<lambda>lut t. if t < 2100 then Inl ''too early''
                             else if lut = (7::nat) then Inr (Some [1, 2, 3 :: nat]) else Inr None)
     5 8 2000 100 = (2105, Inl TableUnavailable)"
  using awaitActivation_fetch [of "\<lambda>lut t. if t < 2100 then Inl ''too early''
                             else if lut = (7::nat) then Inr (Some [1, 2, 3 :: nat]) else Inr None"
           5 7 2000 100]
        awaitActivation_fetch [of "\<lambda>lut t. if t < 2100 then Inl ''too early''
                             else if lut = (7::nat) then Inr (Some [1, 2, 3 :: nat]) else Inr None"
           5 8 2000 100]
  by (auto simp: awaitActivation_def sleep_def timerDelay_def)

text \<open>
  Claim C6 as stated fails: called at time 0 with a delay of 2147483648 ms and a timer that
  is not late, \<open>awaitActivation\<close> issues its fetch at time 1, long before the delay has
  passed.
\<close>

theorem awaitActivation_delay_counterexample:
  "awaitActivation (absent :: nat \<Rightarrow> nat \<Rightarrow> unit + unit option) 0 0 2147483648 0
     = (1, Inl TableUnavailable)
   \<and> \<not> 0 + 2147483648 \<le> (1::nat)"
  by (simp add: awaitActivation_def sleep_def timerDelay_def absent_def TableUnavailable_def)

section \<open>Transfers and balances\<close>

lemma executeTransfer_other:
  "executeTransfer t b = Some b' \<Longrightarrow> fromPubkey t \<noteq> r \<Longrightarrow> b r \<le> b' r"
  by (auto simp: executeTransfer_def Let_def split: if_splits)

lemma executeTransfer_to:
  "executeTransfer t b = Some b' \<Longrightarrow> fromPubkey t \<noteq> toPubkey t \<Longrightarrow> lamports t \<le> b' (toPubkey t)"
  by (auto simp: executeTransfer_def Let_def split: if_splits)

lemma executeAll_mono:
  "executeAll ts b = Some b' \<Longrightarrow> \<forall>t \<in> set ts. fromPubkey t \<noteq> r \<Longrightarrow> b r \<le> b' r"
proof (induction ts arbitrary: b)
  case Nil
  then show ?case by simp
next
  case (Cons t ts)
  from Cons.prems(1) obtain b1 where 1: "executeTransfer t b = Some b1"
    and 2: "executeAll ts b1 = Some b'" by (auto split: option.splits)
  from executeTransfer_other [OF 1] Cons.prems(2) have "b r \<le> b1 r" by simp
  moreover from Cons.IH [OF 2] Cons.prems(2) have "b1 r \<le> b' r" by simp
  ultimately show ?case by simp
qed

lemma executeAll_received:
  "executeAll ts b = Some b' \<Longrightarrow> \<forall>t \<in> set ts. fromPubkey t \<noteq> r \<Longrightarrow>
     t \<in> set ts \<Longrightarrow> toPubkey t = r \<Longrightarrow> lamports t \<le> b' r"
proof (induction ts arbitrary: b)
  case Nil
  then show ?case by simp
next
  case (Cons u us)
  from Cons.prems(1) obtain b1 where 1: "executeTransfer u b = Some b1"
    and 2: "executeAll us b1 = Some b'" by (auto split: option.splits)
  show ?case
  proof (cases "t = u")
    case True
    with Cons.prems have "fromPubkey u \<noteq> toPubkey u" by auto
    from executeTransfer_to [OF 1 this] True Cons.prems(4) have "lamports t \<le> b1 r" by simp
    moreover from executeAll_mono [OF 2] Cons.prems(2) have "b1 r \<le> b' r" by simp
    ultimately show ?thesis by simp
  next
    case False
    with Cons.prems(3) have "t \<in> set us" by simp
    with Cons.IH [OF 2] Cons.prems(2,4) show ?thesis by simp
  qed
qed

lemma checkBalances_ok:
  "(checkBalances b rs = (Inr () :: 'e thrown + unit)) = (\<forall>r \<in> set rs. 4 * LAMPORTS_PER_SOL \<le> b r)"
  by (induction rs) auto

lemma instructions_nth:
  "i < 50 \<Longrightarrow> instructions payer rs ! i =
     \<lparr>fromPubkey = payer, toPubkey = rs ! i, lamports = 4 * LAMPORTS_PER_SOL\<rparr>"
  by (simp add: instructions_def)

lemma sum_instructions:
  "sum_list (map lamports (instructions payer rs)) = 200 * LAMPORTS_PER_SOL"
  by (simp add: instructions_def comp_def sum_list_triv)

lemma executeAll_funded:
  "\<forall>t \<in> set ts. fromPubkey t = payer \<and> toPubkey t \<noteq> payer \<Longrightarrow>
   sum_list (map lamports ts) \<le> b payer \<Longrightarrow> executeAll ts b \<noteq> None"
proof (induction ts arbitrary: b)
  case Nil
  then show ?case by simp
next
  case (Cons t ts)
  define b1 where
    "b1 = b(payer := b payer - lamports t, toPubkey t := b (toPubkey t) + lamports t)"
  from Cons.prems have 1: "executeTransfer t b = Some b1"
    by (auto simp: executeTransfer_def Let_def b1_def)
  from Cons.prems have a: "\<forall>t \<in> set ts. fromPubkey t = payer \<and> toPubkey t \<noteq> payer"
    by simp
  from Cons.prems have b: "sum_list (map lamports ts) \<le> b1 payer" by (auto simp: b1_def)
  from Cons.IH [of b1, OF a b] have "executeAll ts b1 \<noteq> None" .
  with 1 show ?case by simp
qed

lemma transaction_funded:
  fixes payer :: 'k
  assumes h: "payer \<notin> set (recipients keygen)" "airdropLamports \<le> b payer"
      "fee \<le> 100 * LAMPORTS_PER_SOL"
  shows "executeTransaction fee payer (instructions payer (recipients keygen)) b \<noteq> None"
proof -
  let ?ts = "instructions payer (recipients keygen)"
  have 1: "sum_list (map lamports ?ts) = 200 * LAMPORTS_PER_SOL" by (rule sum_instructions)
  have le: "fee + 200 * LAMPORTS_PER_SOL \<le> b payer"
    using h(2,3) unfolding airdropLamports_def by linarith
  have a: "\<forall>t \<in> set ?ts. fromPubkey t = payer \<and> toPubkey t \<noteq> payer"
    using h(1) by (auto simp: instructions_def recipients_def)
  have b: "sum_list (map lamports ?ts) \<le> (b(payer := b payer - fee)) payer"
    using le unfolding 1 by simp
  have "executeAll ?ts (b(payer := b payer - fee)) \<noteq> None"
    by (rule executeAll_funded [of ?ts payer "b(payer := b payer - fee)", OF a b])
  moreover have "\<not> b payer < fee" using le by linarith
  ultimately show ?thesis by (simp add: executeTransaction_def)
qed

lemma payer_not_recipient: "(0::nat) \<notin> set (recipients Suc)"
  by (simp add: recipients_def)

lemma funded_run:
  "executeTransaction 5000 0 (instructions 0 (recipients Suc))
        (\<lambda>k. if k = 0 then airdropLamports else 0) \<noteq> None"
  by (rule transaction_funded [OF payer_not_recipient]) (simp_all add: LAMPORTS_PER_SOL_def)

text \<open>
  Claim C9. Instruction \<open>i\<close> sends exactly \<open>4 * LAMPORTS_PER_SOL\<close> from the payer to
  \<open>recipients[i]\<close>. Once the transaction has been executed, every one of the 50
  recipients, none of which is the payer, holds at least \<open>4 * LAMPORTS_PER_SOL\<close>, so no
  assertion of the final loop fails.
\<close>

theorem recipients_funded:
  fixes payer :: 'k
  assumes "payer \<notin> set (recipients keygen)"
    and "executeTransaction fee payer (instructions payer (recipients keygen)) b = Some b'"
  shows "(\<forall>i < 50. instructions payer (recipients keygen) ! i =
            \<lparr>fromPubkey = payer, toPubkey = recipients keygen ! i,
             lamports = 4 * LAMPORTS_PER_SOL\<rparr>)
         \<and> (\<forall>r \<in> set (recipients keygen). 4 * LAMPORTS_PER_SOL \<le> b' r)
         \<and> checkBalances b' (recipients keygen) = (Inr () :: 'e thrown + unit)"
proof -
  let ?rs = "recipients keygen" and ?ts = "instructions payer (recipients keygen)"
  have len: "length ?rs = 50" by (simp add: recipients_def)
  from assms(2) have run: "executeAll ?ts (b(payer := b payer - fee)) = Some b'"
    by (simp add: executeTransaction_def split: if_splits)
  have src: "\<forall>t \<in> set ?ts. fromPubkey t = payer" by (auto simp: instructions_def)
  have funded: "4 * LAMPORTS_PER_SOL \<le> b' r" if "r \<in> set ?rs" for r
  proof -
    from that len obtain i where i: "i < 50" "?rs ! i = r" by (metis in_set_conv_nth)
    let ?t = "?ts ! i"
    have t: "?t \<in> set ?ts" using i(1) by (simp add: instructions_def)
    have "toPubkey ?t = r" "lamports ?t = 4 * LAMPORTS_PER_SOL"
      using i by (simp_all add: instructions_nth)
    moreover have "\<forall>t \<in> set ?ts. fromPubkey t \<noteq> r" using src that assms(1) by auto
    ultimately show ?thesis using executeAll_received [OF run _ t, of r] by simp
  qed
  then have c: "checkBalances b' ?rs = (Inr () :: 'e thrown + unit)"
    by (simp add: checkBalances_ok)
  have a: "\<forall>i < 50. ?ts ! i = \<lparr>fromPubkey = payer, toPubkey = ?rs ! i,
             lamports = 4 * LAMPORTS_PER_SOL\<rparr>"
    by (simp add: instructions_nth)
  from funded have b: "\<forall>r \<in> set ?rs. 4 * LAMPORTS_PER_SOL \<le> b' r" by blast
  from a b c show ?thesis by (intro conjI)
qed

theorem recipients_funded_witness:
  "(0::nat) \<notin> set (recipients Suc)
   \<and> executeTransaction 5000 0 (instructions 0 (recipients Suc))
        (\<lambda>k. if k = 0 then airdropLamports else 0) \<noteq> None
   \<and> checkBalances (the (executeTransaction 5000 0 (instructions 0 (recipients Suc))
        (\<lambda>k. if k = 0 then airdropLamports else 0))) (recipients Suc)
       = (Inr () :: unit thrown + unit)"
proof -
  from funded_run obtain b' where
    run: "executeTransaction 5000 0 (instructions 0 (recipients Suc))
        (\<lambda>k. if k = 0 then airdropLamports else 0) = Some b'" by blast
  from recipients_funded [OF payer_not_recipient run] have
    "checkBalances b' (recipients Suc) = (Inr () :: unit thrown + unit)" by blast
  with run payer_not_recipient show ?thesis by simp
qed

text \<open>
  Claim C10. The airdrop asks for exactly \<open>300 * LAMPORTS_PER_SOL\<close>; the 50 transfers
  move \<open>50 * 4 * LAMPORTS_PER_SOL\<close>, that is 200 SOL, strictly less than the airdrop. A
  payer holding the airdrop who is none of the recipients can therefore pay a fee of up to
  100 SOL and all 50 transfers.
\<close>

theorem airdrop_covers_transfers:
  fixes payer :: 'k
  shows "airdropLamports = 300 * LAMPORTS_PER_SOL
         \<and> sum_list (map lamports (instructions payer (recipients keygen)))
             = 50 * (4 * LAMPORTS_PER_SOL)
         \<and> sum_list (map lamports (instructions payer (recipients keygen)))
             = 200 * LAMPORTS_PER_SOL
         \<and> sum_list (map lamports (instructions payer (recipients keygen))) < airdropLamports
         \<and> (payer \<notin> set (recipients keygen) \<and> airdropLamports \<le> b payer
              \<and> fee \<le> 100 * LAMPORTS_PER_SOL
             \<longrightarrow> executeTransaction fee payer (instructions payer (recipients keygen)) b
                   \<noteq> None)"
  using transaction_funded [of payer keygen b fee]
  by (simp add: sum_instructions airdropLamports_def LAMPORTS_PER_SOL_def)

theorem airdrop_covers_transfers_witness:
  "(0::nat) \<notin> set (recipients Suc)
   \<and> airdropLamports \<le> (\<lambda>k. if k = 0 then airdropLamports else 0) (0::nat)
   \<and> (5000::nat) \<le> 100 * LAMPORTS_PER_SOL
   \<and> executeTransaction 5000 0 (instructions 0 (recipients Suc))
        (\<lambda>k. if k = 0 then airdropLamports else 0) \<noteq> None"
  using airdrop_covers_transfers [of 0 Suc "\<lambda>k. if k = 0 then airdropLamports else 0" 5000]
    payer_not_recipient
  by (simp add: LAMPORTS_PER_SOL_def)

end
